theory Spec2Isabelle
  imports Main "HOL-Library.Sublist"
begin

section \<open>Characters and strings\<close>

text \<open>
  A Python \<open>str\<close> is a sequence of code points. The model is \<open>string\<close>, a list of
  \<open>char\<close>, each \<open>char\<close> standing for the code point of the same number (0 to 255, the
  Basic Latin and Latin-1 blocks). On this range the three character classes below are
  exactly the ones the source uses.
\<close>

definition is_space :: "char \<Rightarrow> bool" where
  \<comment> \<open>\<open>\s\<close> of \<open>re\<close> on \<open>str\<close>, and the characters \<open>str.strip()\<close> removes:
      TAB, LF, VT, FF, CR, FS, GS, RS, US, SPACE, NEL and NO-BREAK SPACE.\<close>
  "is_space c =
     (let n = (of_char c :: nat)
      in (9 \<le> n \<and> n \<le> 13) \<or> (28 \<le> n \<and> n \<le> 32) \<or> n = 133 \<or> n = 160)"

definition is_upper :: "char \<Rightarrow> bool" where
  \<comment> \<open>the class \<open>[A-Z]\<close> of the lookahead\<close>
  "is_upper c = (let n = (of_char c :: nat) in 65 \<le> n \<and> n \<le> 90)"

definition is_end :: "char \<Rightarrow> bool" where
  \<comment> \<open>the class \<open>[.!?]\<close> of the lookbehind\<close>
  "is_end c = (c = CHR ''.'' \<or> c = CHR ''!'' \<or> c = CHR ''?'')"

definition lower_char :: "char \<Rightarrow> char" where
  \<comment> \<open>\<open>str.lower()\<close> on one code point below 256: A to Z, and the capital letters
      of Latin-1 (U+00C0 to U+00DE without the multiplication sign U+00D7)\<close>
  "lower_char c =
     (let n = (of_char c :: nat)
      in if (65 \<le> n \<and> n \<le> 90) \<or> (192 \<le> n \<and> n \<le> 222 \<and> n \<noteq> 215)
         then char_of (n + 32) else c)"

definition lower :: "string \<Rightarrow> string" where
  "lower s = map lower_char s"

definition strip :: "string \<Rightarrow> string" where
  \<comment> \<open>\<open>s.strip()\<close>: leading and trailing whitespace removed\<close>
  "strip s = rev (dropWhile is_space (rev (dropWhile is_space s)))"

fun str_in :: "string \<Rightarrow> string \<Rightarrow> bool" where
  \<comment> \<open>\<open>kw in s\<close>: \<open>kw\<close> occurs in \<open>s\<close> as a contiguous substring\<close>
  "str_in kw [] = (kw = [])"
| "str_in kw (c # cs) = (prefix kw (c # cs) \<or> str_in kw cs)"

section \<open>Sentence segmentation\<close>

function sub_ws :: "string \<Rightarrow> string" where
  \<comment> \<open>\<open>re.sub(r"\s+", " ", s)\<close>: every maximal run of whitespace becomes one space\<close>
  "sub_ws [] = []"
| "sub_ws (c # cs) =
     (if is_space c then CHR '' '' # sub_ws (dropWhile is_space cs) else c # sub_ws cs)"
  by pat_completeness auto
termination
  by (relation "measure length") (auto simp: length_dropWhile_le less_Suc_eq_le)

definition cleaned :: "string \<Rightarrow> string" where
  \<comment> \<open>line 49\<close>
  "cleaned text = sub_ws (strip text)"

definition lookbehind :: "char option \<Rightarrow> bool" where
  \<comment> \<open>\<open>(?<=[.!?])\<close>: there is a previous character and it ends a sentence\<close>
  "lookbehind prev = (case prev of None \<Rightarrow> False | Some p \<Rightarrow> is_end p)"

definition lookahead :: "string \<Rightarrow> bool" where
  \<comment> \<open>\<open>(?=[A-Z])\<close>: there is a next character and it is a capital letter\<close>
  "lookahead cs = (case cs of [] \<Rightarrow> False | d # _ \<Rightarrow> is_upper d)"

text \<open>
  \<open>sentence_endings.split\<close> scans the string from the left. \<open>prev\<close> is the character
  before the scanning position, \<open>cur\<close> the fragment collected since the last match. The
  pattern can only match at a whitespace character that follows a sentence end; the greedy
  \<open>\s+\<close> takes the whole run of whitespace, and a shorter run cannot succeed, since the
  character after it would be whitespace and not a capital letter. A match closes the
  fragment and drops the run.
\<close>

function sentence_endings_split :: "char option \<Rightarrow> string \<Rightarrow> string \<Rightarrow> string list" where
  "sentence_endings_split prev cur [] = [cur]"
| "sentence_endings_split prev cur (c # cs) =
     (if lookbehind prev \<and> is_space c \<and> lookahead (dropWhile is_space cs)
      then cur # sentence_endings_split (Some (last (c # takeWhile is_space cs))) []
                   (dropWhile is_space cs)
      else sentence_endings_split (Some c) (cur @ [c]) cs)"
  by pat_completeness auto
termination
  by (relation "measure (\<lambda>(prev, cur, cs). length cs)")
     (auto simp: length_dropWhile_le less_Suc_eq_le)

definition split_sentences :: "string \<Rightarrow> string list" where
  \<comment> \<open>lines 49 to 54\<close>
  "split_sentences text =
     (let sentences = sentence_endings_split None [] (cleaned text)
      in map strip (filter (\<lambda>s. strip s \<noteq> []) sentences))"

section \<open>Category matching\<close>

type_synonym category_table = "(string \<times> string list) list"
  \<comment> \<open>a \<open>dict\<close> in insertion order: \<open>items()\<close> iterates the pairs in list order\<close>

definition match_categories :: "category_table \<Rightarrow> string \<Rightarrow> string list" where
  \<comment> \<open>the comprehension of line 76\<close>
  "match_categories categories lowered =
     map fst (filter (\<lambda>(cat, keywords). list_ex (\<lambda>kw. str_in kw lowered) keywords) categories)"

fun analyze_loop ::
  "category_table \<Rightarrow> (string \<times> string list) list \<Rightarrow> string list \<Rightarrow> (string \<times> string list) list"
where
  "analyze_loop categories results [] = results"
| "analyze_loop categories results (sentence # rest) =
     (let lowered = lower sentence;
          matched = match_categories categories lowered
      in if matched \<noteq> []
         then analyze_loop categories (results @ [(sentence, matched)]) rest
         else analyze_loop categories results rest)"

definition analyze_policy :: "string \<Rightarrow> category_table \<Rightarrow> (string \<times> string list) list" where
  "analyze_policy text categories = analyze_loop categories [] (split_sentences text)"

definition categories :: category_table where
  \<comment> \<open>the table of \<open>main\<close>, lines 187 to 212\<close>
  "categories =
     [(''Data Sharing'',
         [''share'', ''third party'', ''third-party'', ''partner'', ''vendor'', ''affiliate'',
          ''disclose'', ''provide'']),
      (''Data Selling'', [''sell'', ''sale'', ''monetize'', ''commercialize'']),
      (''Advertising'',
         [''advertising'', ''advertisement'', ''advertiser'', ''marketing'', ''promotional'']),
      (''Analytics & Tracking'',
         [''analytics'', ''tracking'', ''cookie'', ''beacon'', ''pixel'', ''sdk'']),
      (''Personal Information'',
         [''personal information'', ''personal data'', ''pii'', ''personally identifiable'',
          ''sensitive information'']),
      (''Location'', [''location'', ''geolocation'', ''gps'']),
      (''Retention'',
         [''retain'', ''retention'', ''store'', ''storage'', ''keep'', ''period'', ''duration'']),
      (''Security'', [''security'', ''protect'', ''encryption'', ''breach''])]"

section \<open>Recommendations\<close>

text \<open>
  Recommendation texts are never taken apart, only compared as wholes. Two of them hold
  the non-breaking hyphen U+2011, which is above the range of \<open>char\<close>; it is written
  here as the three bytes of its UTF-8 form, which keeps distinct texts distinct.
\<close>

definition nb_hyphen :: string where
  "nb_hyphen = [CHR 0xE2, CHR 0x80, CHR 0x91]"

definition category_recommendations :: "(string \<times> string list) list" where
  \<comment> \<open>lines 98 to 131\<close>
  "category_recommendations =
     [(''Data Sharing'',
         [''Review the app's settings for data sharing or personalization. Opt out of sharing personal data with third'' @ nb_hyphen @ ''party partners whenever possible.'',
          ''Disable permissions for unnecessary sensors or data (e.g., contacts, photos) if they are not needed for the app's core functionality.'']),
      (''Data Selling'',
         [''Check whether the app offers an option to opt out of the sale of personal information. If so, enable it.'',
          ''Consider contacting the app developer or using a different service if the policy allows selling your data.'']),
      (''Advertising'',
         [''In your device settings, limit ad tracking or disable personalized ads (e.g., 'Limit Ad Tracking' on iOS or 'Opt out of Ads Personalization' on Android).'',
          ''Within the app, look for advertising preferences and opt out of targeted advertising.'']),
      (''Analytics & Tracking'',
         [''Disable analytics or usage tracking in the app's settings if available.'',
          ''Clear cookies and app data periodically to minimize tracking.'']),
      (''Personal Information'',
         [''Provide only the minimum personal information required for the app to function.'',
          ''Regularly review and update your privacy settings to restrict access to sensitive data.'']),
      (''Location'',
         [''Set location permissions to 'While Using the App' or 'Never' unless the app truly needs continuous location access.'',
          ''Disable precise location access if approximate location suffices for the app's functionality.'']),
      (''Retention'',
         [''If the policy indicates long data retention, consider periodically deleting your account or data within the app.'',
          ''Request account deletion or data export when you stop using the service.'']),
      (''Security'',
         [''Enable any available security features such as two'' @ nb_hyphen @ ''factor authentication (2FA) or passcodes within the app.'',
          ''Keep your device and apps updated to ensure you have the latest security patches.''])]"

definition dict_get :: "('k \<times> 'v) list \<Rightarrow> 'k \<Rightarrow> 'v \<Rightarrow> 'v" where
  \<comment> \<open>\<open>d.get(key, default)\<close>\<close>
  "dict_get d key dflt = (case map_of d key of None \<Rightarrow> dflt | Some v \<Rightarrow> v)"

fun extend_loop :: "string list \<Rightarrow> string list \<Rightarrow> string list" where
  \<comment> \<open>lines 132 and 133\<close>
  "extend_loop recs [] = recs"
| "extend_loop recs (category # rest) =
     extend_loop (recs @ dict_get category_recommendations category []) rest"

fun dedup_loop :: "string set \<Rightarrow> string list \<Rightarrow> string list \<Rightarrow> string list" where
  \<comment> \<open>lines 137 to 140\<close>
  "dedup_loop seen deduped [] = deduped"
| "dedup_loop seen deduped (rec # rest) =
     (if rec \<notin> seen then dedup_loop (insert rec seen) (deduped @ [rec]) rest
      else dedup_loop seen deduped rest)"

definition get_recommendations :: "string list \<Rightarrow> string list" where
  "get_recommendations matched_categories =
     (let recs = extend_loop [] matched_categories
      in dedup_loop {} [] recs)"

section \<open>The pipeline of \<open>main\<close>\<close>

fun unique_loop :: "string list \<Rightarrow> string list \<Rightarrow> string list" where
  \<comment> \<open>lines 238 to 240, over the matched categories of all records in order\<close>
  "unique_loop unique_categories [] = unique_categories"
| "unique_loop unique_categories (cat # rest) =
     (if cat \<notin> set unique_categories then unique_loop (unique_categories @ [cat]) rest
      else unique_loop unique_categories rest)"

definition unique_categories_of :: "(string \<times> string list) list \<Rightarrow> string list" where
  \<comment> \<open>lines 236 to 240\<close>
  "unique_categories_of results = unique_loop [] (concat (map snd results))"

definition pipeline ::
  "string \<Rightarrow> category_table \<Rightarrow> (string \<times> string list) list \<times> string list" where
  \<comment> \<open>lines 226 to 241, for a given table: the Result Set and the recommendations
      that \<open>main\<close> prints (none when the Result Set is empty)\<close>
  "pipeline text table =
     (let results = analyze_policy text table
      in (results, if results = [] then [] else get_recommendations (unique_categories_of results)))"

section \<open>Runs\<close>

text \<open>
  The definitions so far give the value that a call returns. A run of the program depends
  on two more things, which this section makes explicit.

  A loop has to come to an end. The scans behind \<open>re.sub\<close> and \<open>split\<close> are the only
  loops of the source that are not a \<open>for\<close> over a finished list; here they are partial
  functions, with \<open>None\<close> for a run that returns no value.

  A Python \<open>set\<close> keeps its elements in an order fixed by their hashes, and the hash of a
  \<open>str\<close> is salted anew in every process. In a run, \<open>seen\<close> is therefore a list in an
  order that the parameter \<open>set_add\<close> decides; the code may only rely on its elements.
\<close>

partial_function (option) sub_ws_run :: "string \<Rightarrow> string option" where
  \<comment> \<open>\<open>re.sub\<close> of line 49, run\<close>
  "sub_ws_run s =
     (case s of
        [] \<Rightarrow> Some []
      | c # cs \<Rightarrow>
          if is_space c
          then Option.bind (sub_ws_run (dropWhile is_space cs)) (\<lambda>r. Some (CHR '' '' # r))
          else Option.bind (sub_ws_run cs) (\<lambda>r. Some (c # r)))"

partial_function (option) sentence_endings_split_run ::
  "char option \<Rightarrow> string \<Rightarrow> string \<Rightarrow> string list option" where
  \<comment> \<open>\<open>sentence_endings.split\<close> of line 53, run\<close>
  "sentence_endings_split_run prev cur s =
     (case s of
        [] \<Rightarrow> Some [cur]
      | c # cs \<Rightarrow>
          if lookbehind prev \<and> is_space c \<and> lookahead (dropWhile is_space cs)
          then Option.bind
                 (sentence_endings_split_run (Some (last (c # takeWhile is_space cs))) []
                    (dropWhile is_space cs))
                 (\<lambda>rest. Some (cur # rest))
          else sentence_endings_split_run (Some c) (cur @ [c]) cs)"

declare sub_ws_run.simps [code]
declare sentence_endings_split_run.simps [code]

definition split_sentences_run :: "string \<Rightarrow> string list option" where
  \<comment> \<open>lines 49 to 54, run\<close>
  "split_sentences_run text =
     Option.bind (sub_ws_run (strip text)) (\<lambda>cleaned.
     Option.bind (sentence_endings_split_run None [] cleaned) (\<lambda>sentences.
     Some (map strip (filter (\<lambda>s. strip s \<noteq> []) sentences))))"

definition analyze_policy_run ::
  "string \<Rightarrow> category_table \<Rightarrow> (string \<times> string list) list option" where
  \<comment> \<open>lines 72 to 79, run: the loop is a \<open>for\<close> over the list of sentences\<close>
  "analyze_policy_run text table =
     Option.bind (split_sentences_run text) (\<lambda>sentences.
     Some (analyze_loop table [] sentences))"

fun dedup_loop_run ::
  "(string \<Rightarrow> string list \<Rightarrow> string list) \<Rightarrow> string list \<Rightarrow> string list \<Rightarrow> string list
     \<Rightarrow> string list" where
  \<comment> \<open>lines 135 to 140, run: \<open>rec not in seen\<close> and \<open>seen.add(rec)\<close> on a set
      kept as a list\<close>
  "dedup_loop_run set_add seen deduped [] = deduped"
| "dedup_loop_run set_add seen deduped (rec # rest) =
     (if rec \<notin> set seen then dedup_loop_run set_add (set_add rec seen) (deduped @ [rec]) rest
      else dedup_loop_run set_add seen deduped rest)"

definition get_recommendations_run ::
  "(string \<Rightarrow> string list \<Rightarrow> string list) \<Rightarrow> string list \<Rightarrow> string list" where
  \<comment> \<open>lines 132 to 141, run\<close>
  "get_recommendations_run set_add matched_categories =
     (let recs = extend_loop [] matched_categories
      in dedup_loop_run set_add [] [] recs)"

definition pipeline_run ::
  "(string \<Rightarrow> string list \<Rightarrow> string list) \<Rightarrow> string \<Rightarrow> category_table
     \<Rightarrow> ((string \<times> string list) list \<times> string list) option" where
  \<comment> \<open>lines 226 to 241, run\<close>
  "pipeline_run set_add text table =
     Option.bind (analyze_policy_run text table) (\<lambda>results.
     Some (results,
           if results = [] then []
           else get_recommendations_run set_add (unique_categories_of results)))"

section \<open>Reference definitions\<close>

text \<open>
  The elements of a list at the positions where they occur for the first time, in order:
  what remains when every later repetition of an element is removed.
\<close>

definition first_occurrences :: "'a list \<Rightarrow> 'a list" where
  "first_occurrences xs = [xs ! i. i \<leftarrow> [0..<length xs], xs ! i \<notin> set (take i xs)]"

text \<open>
  \<open>" ".join(ss)\<close>: the strings of a list, with one space between neighbours.
\<close>

fun join_sp :: "string list \<Rightarrow> string" where
  "join_sp [] = []"
| "join_sp [s] = s"
| "join_sp (s # t # ts) = s @ CHR '' '' # join_sp (t # ts)"

text \<open>
  \<open>text.split()\<close>: the maximal runs of characters that are not whitespace.
\<close>

function tokens :: "string \<Rightarrow> string list" where
  "tokens [] = []"
| "tokens (c # cs) =
     (if is_space c then tokens cs
      else (c # takeWhile (\<lambda>d. \<not> is_space d) cs) # tokens (dropWhile (\<lambda>d. \<not> is_space d) cs))"
  by pat_completeness auto
termination
  by (relation "measure length") (auto simp: length_dropWhile_le less_Suc_eq_le)

text \<open>
  A qualifying boundary occurs in a string: one of \<open>.\<close>, \<open>!\<close>, \<open>?\<close>, then one or more
  whitespace characters, then a capital letter A to Z.
\<close>

fun has_boundary :: "string \<Rightarrow> bool" where
  "has_boundary [] = False"
| "has_boundary [p] = False"
| "has_boundary (p # w # cs) =
     ((is_end p \<and> is_space w \<and> lookahead (dropWhile is_space cs)) \<or> has_boundary (w # cs))"

text \<open>
  Every two neighbours of a list of sentences meet at a qualifying boundary: the left one
  ends with \<open>.\<close>, \<open>!\<close> or \<open>?\<close>, the right one starts with a capital letter.
\<close>

fun boundaries_ok :: "string list \<Rightarrow> bool" where
  "boundaries_ok (x # y # ys) =
     (x \<noteq> [] \<and> is_end (last x) \<and> y \<noteq> [] \<and> is_upper (hd y) \<and> boundaries_ok (y # ys))"
| "boundaries_ok _ = True"

section \<open>Invariants of the scan\<close>

text \<open>
  \<open>single_spaced\<close>: every whitespace character is a space, followed by a character
  that is not whitespace (or by nothing). \<open>boundary_within cur rest\<close>: the text
  \<open>cur @ rest\<close> has a qualifying boundary whose punctuation mark and first whitespace
  character both lie in \<open>cur\<close>. \<open>scan_inv\<close>: the previous character is the last one
  of the fragment, or the fragment is empty and the previous character ends no sentence.
\<close>

fun single_spaced :: "string \<Rightarrow> bool" where
  "single_spaced [] = True"
| "single_spaced [c] = (if is_space c then c = CHR '' '' else True)"
| "single_spaced (c # d # cs) =
     ((if is_space c then c = CHR '' '' \<and> \<not> is_space d else True) \<and> single_spaced (d # cs))"

fun boundary_within :: "string \<Rightarrow> string \<Rightarrow> bool" where
  "boundary_within [] rest = False"
| "boundary_within [p] rest = False"
| "boundary_within (p # w # cur) rest =
     ((is_end p \<and> is_space w \<and> lookahead (dropWhile is_space (cur @ rest)))
      \<or> boundary_within (w # cur) rest)"

definition scan_inv :: "char option \<Rightarrow> string \<Rightarrow> bool" where
  "scan_inv prev cur = (if cur = [] then \<not> lookbehind prev else prev = Some (last cur))"

section \<open>Substring test and matcher\<close>

lemma str_in_sublist: "str_in kw s = sublist kw s"
  by (induction s) (auto simp: sublist_Cons_right)

lemma str_in_iff: "str_in kw s \<longleftrightarrow> (\<exists>pre post. s = pre @ kw @ post)"
  by (simp add: str_in_sublist sublist_def)

lemma analyze_loop_eq:
  "analyze_loop cats results ss =
     results @ map (\<lambda>s. (s, match_categories cats (lower s)))
                 (filter (\<lambda>s. match_categories cats (lower s) \<noteq> []) ss)"
  by (induction ss arbitrary: results) (simp_all add: Let_def)

lemma match_categories_set:
  "cat \<in> set (match_categories cats lowered) \<longleftrightarrow>
     (\<exists>keywords. (cat, keywords) \<in> set cats \<and> (\<exists>kw \<in> set keywords. str_in kw lowered))"
  by (force simp: match_categories_def list_ex_iff)

lemma match_categories_subseq: "subseq (match_categories cats lowered) (map fst cats)"
  unfolding match_categories_def by (simp add: subseq_map)

lemma dedup_loop_acc: "dedup_loop seen deduped xs = deduped @ dedup_loop seen [] xs"
proof (induction xs arbitrary: seen deduped)
  case Nil
  show ?case by simp
next
  case (Cons x xs)
  show ?case
    using Cons.IH [of "insert x seen" "deduped @ [x]"] Cons.IH [of "insert x seen" "[x]"]
      Cons.IH [of seen deduped]
    by simp
qed

lemma dedup_loop_Cons:
  "dedup_loop seen [] (x # xs) =
     (if x \<in> seen then dedup_loop seen [] xs else x # dedup_loop (insert x seen) [] xs)"
  using dedup_loop_acc [of "insert x seen" "[x]" xs] by simp

declare dedup_loop.simps(2) [simp del]

lemma dedup_loop_set: "set (dedup_loop seen [] xs) = set xs - seen"
  by (induction xs arbitrary: seen) (auto simp: dedup_loop_Cons)

lemma dedup_loop_distinct: "distinct (dedup_loop seen [] xs)"
  by (induction xs arbitrary: seen) (auto simp: dedup_loop_Cons dedup_loop_set)

lemma dedup_loop_append:
  "dedup_loop seen [] (xs @ ys) = dedup_loop seen [] xs @ dedup_loop (seen \<union> set xs) [] ys"
  by (induction xs arbitrary: seen) (auto simp: dedup_loop_Cons insert_absorb)

lemma dedup_loop_index:
  "dedup_loop seen [] xs = [xs ! i. i \<leftarrow> [0..<length xs], xs ! i \<notin> seen \<union> set (take i xs)]"
proof (induction xs arbitrary: seen)
  case Nil
  show ?case by simp
next
  case (Cons x xs)
  let ?g = "\<lambda>S i. if xs ! i \<notin> S \<union> set (take i xs) then [xs ! i] else []"
  let ?h = "\<lambda>i. if (x # xs) ! i \<notin> seen \<union> set (take i (x # xs)) then [(x # xs) ! i] else []"
  have upt: "[0..<length (x # xs)] = 0 # map Suc [0..<length xs]"
    by (simp add: upt_conv_Cons map_Suc_upt del: upt_Suc)
  have h: "?h (Suc i) = ?g (insert x seen) i" for i
    by simp
  have "concat (map ?h [0..<length (x # xs)]) =
          ?h 0 @ concat (map (\<lambda>i. ?h (Suc i)) [0..<length xs])"
    by (simp only: upt list.map concat.simps map_map comp_def)
  also have "\<dots> = (if x \<in> seen then [] else [x]) @ concat (map (?g (insert x seen)) [0..<length xs])"
    unfolding h by simp
  also have "\<dots> = (if x \<in> seen then [] else [x]) @ dedup_loop (insert x seen) [] xs"
    using Cons.IH [of "insert x seen"] by simp
  also have "\<dots> = dedup_loop seen [] (x # xs)"
    by (simp add: dedup_loop_Cons insert_absorb)
  finally show ?case by simp
qed

lemma dedup_loop_first_occurrences: "dedup_loop {} [] xs = first_occurrences xs"
  by (simp add: dedup_loop_index first_occurrences_def)

lemma extend_loop_eq:
  "extend_loop recs cats = recs @ concat (map (\<lambda>c. dict_get category_recommendations c []) cats)"
  by (induction cats arbitrary: recs) simp_all

lemma dedup_loop_absorb: "set xs \<subseteq> seen \<Longrightarrow> dedup_loop seen [] xs = []"
  by (induction xs) (auto simp: dedup_loop_Cons)

lemma dedup_concat_dedup:
  "\<forall>c \<in> T. set (f c) \<subseteq> S \<Longrightarrow>
     dedup_loop S [] (concat (map f (dedup_loop T [] xs))) = dedup_loop S [] (concat (map f xs))"
proof (induction xs arbitrary: S T)
  case Nil
  show ?case by simp
next
  case (Cons x xs)
  show ?case
  proof (cases "x \<in> T")
    case True
    then have sub: "set (f x) \<subseteq> S" using Cons.prems by blast
    then have "S \<union> set (f x) = S" by blast
    with True sub Cons.IH [OF Cons.prems] show ?thesis
      by (simp add: dedup_loop_Cons dedup_loop_append dedup_loop_absorb)
  next
    case False
    have "\<forall>c \<in> insert x T. set (f c) \<subseteq> S \<union> set (f x)" using Cons.prems by blast
    from Cons.IH [OF this] False show ?thesis
      by (simp add: dedup_loop_Cons dedup_loop_append)
  qed
qed

lemma get_recommendations_eq:
  "get_recommendations cats =
     dedup_loop {} [] (concat (map (\<lambda>c. dict_get category_recommendations c []) cats))"
  by (simp add: get_recommendations_def extend_loop_eq)

section \<open>Segmentation\<close>

lemma is_space_space [simp]: "is_space CHR '' ''"
  by (simp add: is_space_def)

lemma is_end_not_space: "is_end c \<Longrightarrow> \<not> is_space c"
  by (auto simp: is_end_def is_space_def)

lemma is_upper_not_space: "is_upper c \<Longrightarrow> \<not> is_space c"
  by (auto simp: is_upper_def is_space_def Let_def)

lemma filter_dropWhile_space:
  "filter (\<lambda>c. \<not> is_space c) (dropWhile is_space cs) = filter (\<lambda>c. \<not> is_space c) cs"
  by (induction cs) auto

lemma filter_split:
  "filter (\<lambda>c. \<not> is_space c) (concat (sentence_endings_split prev cur cs))
     = filter (\<lambda>c. \<not> is_space c) (cur @ cs)"
  by (induction prev cur cs rule: sentence_endings_split.induct)
     (simp_all add: filter_dropWhile_space)

lemma filter_strip: "filter (\<lambda>c. \<not> is_space c) (strip s) = filter (\<lambda>c. \<not> is_space c) s"
  by (simp add: strip_def filter_dropWhile_space flip: rev_filter)

lemma strip_Nil_filter: "strip s = [] \<Longrightarrow> filter (\<lambda>c. \<not> is_space c) s = []"
  using filter_strip [of s] by simp

lemma filter_stripped_fragments:
  "filter (\<lambda>c. \<not> is_space c) (concat (map strip (filter (\<lambda>s. strip s \<noteq> []) xs)))
     = filter (\<lambda>c. \<not> is_space c) (concat xs)"
  by (induction xs) (auto simp: filter_strip strip_Nil_filter)

lemma last_dropWhile: "dropWhile P xs \<noteq> [] \<Longrightarrow> last (dropWhile P xs) = last xs"
  by (induction xs) (auto split: if_splits)

lemma strip_trimmed:
  assumes "strip s \<noteq> []"
  shows "\<not> is_space (hd (strip s))" and "\<not> is_space (last (strip s))"
proof -
  let ?y = "dropWhile is_space s"
  let ?z = "dropWhile is_space (rev ?y)"
  from assms have z: "?z \<noteq> []" by (simp add: strip_def)
  then have y: "?y \<noteq> []" by (auto dest: set_dropWhileD)
  have "hd (strip s) = last ?z" using z by (simp add: strip_def hd_rev)
  also have "\<dots> = last (rev ?y)" using z by (rule last_dropWhile)
  also have "\<dots> = hd ?y" using y by (simp add: last_rev)
  finally show "\<not> is_space (hd (strip s))" using y hd_dropWhile [of is_space s] by simp
  have "last (strip s) = hd ?z" using z by (simp add: strip_def last_rev)
  then show "\<not> is_space (last (strip s))" using z hd_dropWhile [of is_space "rev ?y"] by simp
qed

lemma strip_id: "s \<noteq> [] \<Longrightarrow> \<not> is_space (hd s) \<Longrightarrow> \<not> is_space (last s) \<Longrightarrow> strip s = s"
proof -
  assume s: "s \<noteq> []" and h: "\<not> is_space (hd s)" and l: "\<not> is_space (last s)"
  from s h have d: "dropWhile is_space s = s" by (cases s) auto
  from s l have "dropWhile is_space (rev s) = rev s" by (cases "rev s") (auto simp: last_rev)
  with d show ?thesis by (simp add: strip_def)
qed

subsection \<open>The scan\<close>

lemma scan_inv_start [simp]: "scan_inv None []"
  by (simp add: scan_inv_def lookbehind_def)

lemma scan_inv_snoc [simp]: "scan_inv (Some c) (cur @ [c])"
  by (simp add: scan_inv_def)

lemma scan_inv_after_match [simp]: "is_space w \<Longrightarrow> scan_inv (Some w) []"
  by (auto simp: scan_inv_def lookbehind_def dest: is_end_not_space)

lemma last_run_space: "is_space c \<Longrightarrow> is_space (last (c # takeWhile is_space cs))"
  by (induction cs arbitrary: c) auto

lemma scan_inv_match: "scan_inv prev cur \<Longrightarrow> lookbehind prev \<Longrightarrow> cur \<noteq> [] \<and> is_end (last cur)"
  by (auto simp: scan_inv_def lookbehind_def split: if_splits)

lemma lookahead_Cons: "lookahead cs \<Longrightarrow> cs \<noteq> [] \<and> is_upper (hd cs)"
  by (cases cs) (auto simp: lookahead_def)

lemma split_hd: "\<exists>x rest. sentence_endings_split prev cur cs = (cur @ x) # rest"
proof (induction prev cur cs rule: sentence_endings_split.induct)
  case (1 prev cur)
  show ?case by simp
next
  case (2 prev cur c cs)
  show ?case
  proof (cases "lookbehind prev \<and> is_space c \<and> lookahead (dropWhile is_space cs)")
    case True
    then show ?thesis by simp
  next
    case False
    with "2.IH"(2) obtain x rest where
      "sentence_endings_split (Some c) (cur @ [c]) cs = ((cur @ [c]) @ x) # rest" by blast
    with False have "sentence_endings_split prev cur (c # cs) = (cur @ (c # x)) # rest"
      by auto
    then show ?thesis by blast
  qed
qed

lemma split_not_Nil [simp]: "sentence_endings_split prev cur cs \<noteq> []"
  using split_hd [of prev cur cs] by auto

lemma split_hd_upper:
  assumes "lookahead cs"
  shows "hd (sentence_endings_split prev [] cs) \<noteq> []"
    and "is_upper (hd (hd (sentence_endings_split prev [] cs)))"
proof -
  from lookahead_Cons [OF assms] obtain u r where cs: "cs = u # r" and u: "is_upper u"
    by (cases cs) auto
  from u have "\<not> is_space u" by (rule is_upper_not_space)
  then have eq: "sentence_endings_split prev [] cs = sentence_endings_split (Some u) [u] r"
    by (simp add: cs)
  obtain x rest where "sentence_endings_split (Some u) [u] r = ([u] @ x) # rest"
    using split_hd by blast
  with eq u show "hd (sentence_endings_split prev [] cs) \<noteq> []"
    and "is_upper (hd (hd (sentence_endings_split prev [] cs)))" by simp_all
qed

lemma boundaries_ok_Cons:
  "L \<noteq> [] \<Longrightarrow> boundaries_ok (x # L) =
     (x \<noteq> [] \<and> is_end (last x) \<and> hd L \<noteq> [] \<and> is_upper (hd (hd L)) \<and> boundaries_ok L)"
  by (cases L) auto

lemma split_boundaries_ok:
  "scan_inv prev cur \<Longrightarrow> boundaries_ok (sentence_endings_split prev cur cs)"
proof (induction prev cur cs rule: sentence_endings_split.induct)
  case (1 prev cur)
  show ?case by simp
next
  case (2 prev cur c cs)
  show ?case
  proof (cases "lookbehind prev \<and> is_space c \<and> lookahead (dropWhile is_space cs)")
    case True
    let ?L = "sentence_endings_split (Some (last (c # takeWhile is_space cs))) []
                (dropWhile is_space cs)"
    from True have sp: "is_space (last (c # takeWhile is_space cs))"
      by (blast intro: last_run_space)
    from "2.IH"(1) [OF True scan_inv_after_match [OF sp]] have ok: "boundaries_ok ?L" .
    from True scan_inv_match [OF "2.prems"] have cur: "cur \<noteq> []" "is_end (last cur)" by auto
    from True split_hd_upper [of "dropWhile is_space cs"]
    have hd: "hd ?L \<noteq> []" "is_upper (hd (hd ?L))" by auto
    from True have "sentence_endings_split prev cur (c # cs) = cur # ?L" by simp
    with ok cur hd show ?thesis by (simp add: boundaries_ok_Cons)
  next
    case False
    with "2.IH"(2) [OF False scan_inv_snoc] show ?thesis by auto
  qed
qed

lemma split_trimmed:
  "scan_inv prev cur \<Longrightarrow> cur @ cs \<noteq> [] \<Longrightarrow> \<not> is_space (hd (cur @ cs))
   \<Longrightarrow> \<not> is_space (last (cur @ cs))
   \<Longrightarrow> \<forall>s \<in> set (sentence_endings_split prev cur cs).
         s \<noteq> [] \<and> \<not> is_space (hd s) \<and> \<not> is_space (last s)"
proof (induction prev cur cs rule: sentence_endings_split.induct)
  case (1 prev cur)
  then show ?case by simp
next
  case (2 prev cur c cs)
  show ?case
  proof (cases "lookbehind prev \<and> is_space c \<and> lookahead (dropWhile is_space cs)")
    case True
    let ?r = "dropWhile is_space cs"
    let ?L = "sentence_endings_split (Some (last (c # takeWhile is_space cs))) [] ?r"
    from True have sp: "is_space (last (c # takeWhile is_space cs))"
      by (blast intro: last_run_space)
    from True have la: "lookahead ?r" by blast
    from lookahead_Cons [OF la] have r: "?r \<noteq> []" "is_upper (hd ?r)" by blast+
    from r(1) have lr: "last ?r = last cs" by (rule last_dropWhile)
    from r(1) have cs: "cs \<noteq> []" by (cases cs) simp_all
    from cs have lcs: "last (cur @ c # cs) = last cs" by simp
    from "2.prems"(4) have "\<not> is_space (last cs)" unfolding lcs .
    then have l: "\<not> is_space (last ([] @ ?r))" unfolding append_Nil lr .
    from r(2) have "\<not> is_space (hd ?r)" by (rule is_upper_not_space)
    with r(1) have h: "[] @ ?r \<noteq> []" "\<not> is_space (hd ([] @ ?r))"
      by (simp_all only: append_Nil not_False_eq_True)
    from "2.IH"(1) [OF True scan_inv_after_match [OF sp] h l]
    have rest: "\<forall>s \<in> set ?L. s \<noteq> [] \<and> \<not> is_space (hd s) \<and> \<not> is_space (last s)" .
    from True have lb: "lookbehind prev" by blast
    from scan_inv_match [OF "2.prems"(1) lb] have cur: "cur \<noteq> []" "is_end (last cur)"
      by blast+
    from cur(1) have "hd (cur @ c # cs) = hd cur" by simp
    with "2.prems"(3) have hc: "\<not> is_space (hd cur)" by simp
    from cur(2) have lc: "\<not> is_space (last cur)" by (rule is_end_not_space)
    from True have eq: "sentence_endings_split prev cur (c # cs) = cur # ?L" by simp
    show ?thesis unfolding eq
    proof
      fix s assume "s \<in> set (cur # ?L)"
      then consider "s = cur" | "s \<in> set ?L" by auto
      then show "s \<noteq> [] \<and> \<not> is_space (hd s) \<and> \<not> is_space (last s)"
      proof cases
        case 1
        with cur(1) hc lc show ?thesis by blast
      next
        case 2
        with rest show ?thesis by blast
      qed
    qed
  next
    case False
    have a: "(cur @ [c]) @ cs \<noteq> []" by simp
    from "2.prems"(3) have b: "\<not> is_space (hd ((cur @ [c]) @ cs))" by simp
    from "2.prems"(4) have d: "\<not> is_space (last ((cur @ [c]) @ cs))" by simp
    have eq: "sentence_endings_split prev cur (c # cs)
                = sentence_endings_split (Some c) (cur @ [c]) cs"
      by (simp only: sentence_endings_split.simps False if_False)
    show ?thesis unfolding eq by (rule "2.IH"(2) [OF False scan_inv_snoc a b d])
  qed
qed

subsection \<open>Boundaries inside a fragment\<close>

lemma lookahead_dropWhile_append:
  "lookahead (dropWhile is_space xs) \<Longrightarrow> lookahead (dropWhile is_space (xs @ ys))"
  by (induction xs) (auto simp: lookahead_def)

lemma has_boundary_within: "has_boundary s = boundary_within s []"
  by (induction s rule: has_boundary.induct) auto

lemma boundary_within_mono: "boundary_within cur [] \<Longrightarrow> boundary_within cur rest"
  by (induction cur rest rule: boundary_within.induct)
     (auto dest: lookahead_dropWhile_append)

lemma boundary_within_snoc:
  "boundary_within (cur @ [c]) cs =
     (boundary_within cur (c # cs) \<or>
      (cur \<noteq> [] \<and> is_end (last cur) \<and> is_space c \<and> lookahead (dropWhile is_space cs)))"
  by (induction cur "c # cs" rule: boundary_within.induct) auto

lemma split_no_boundary_inside:
  "scan_inv prev cur \<Longrightarrow> \<not> boundary_within cur cs
   \<Longrightarrow> \<forall>s \<in> set (sentence_endings_split prev cur cs). \<not> has_boundary s"
proof (induction prev cur cs rule: sentence_endings_split.induct)
  case (1 prev cur)
  then show ?case by (simp add: has_boundary_within)
next
  case (2 prev cur c cs)
  show ?case
  proof (cases "lookbehind prev \<and> is_space c \<and> lookahead (dropWhile is_space cs)")
    case True
    let ?L = "sentence_endings_split (Some (last (c # takeWhile is_space cs))) []
                (dropWhile is_space cs)"
    from True have sp: "is_space (last (c # takeWhile is_space cs))"
      by (blast intro: last_run_space)
    have "\<not> boundary_within [] (dropWhile is_space cs)" by simp
    from "2.IH"(1) [OF True scan_inv_after_match [OF sp] this]
    have rest: "\<forall>s \<in> set ?L. \<not> has_boundary s" .
    from "2.prems"(2) have "\<not> has_boundary cur"
      unfolding has_boundary_within by (blast dest: boundary_within_mono)
    moreover from True have "sentence_endings_split prev cur (c # cs) = cur # ?L" by simp
    ultimately show ?thesis using rest by simp
  next
    case False
    have "\<not> boundary_within (cur @ [c]) cs"
    proof (cases "cur = []")
      case True
      then show ?thesis by simp
    next
      case ne: False
      with "2.prems"(1) have "prev = Some (last cur)" by (simp add: scan_inv_def)
      with False have "\<not> (is_end (last cur) \<and> is_space c \<and> lookahead (dropWhile is_space cs))"
        by (simp add: lookbehind_def)
      with "2.prems"(2) show ?thesis by (simp add: boundary_within_snoc)
    qed
    from "2.IH"(2) [OF False scan_inv_snoc this] False show ?thesis by auto
  qed
qed

lemma has_boundary_append: "has_boundary ys \<Longrightarrow> has_boundary (xs @ ys)"
proof (induction xs)
  case Nil
  then show ?case by simp
next
  case (Cons x xs)
  then have "has_boundary (xs @ ys)" by simp
  then show ?case by (cases "xs @ ys") auto
qed

lemma split_without_boundary:
  "scan_inv prev cur \<Longrightarrow> \<not> has_boundary (cur @ cs)
   \<Longrightarrow> sentence_endings_split prev cur cs = [cur @ cs]"
proof (induction prev cur cs rule: sentence_endings_split.induct)
  case (1 prev cur)
  show ?case by simp
next
  case (2 prev cur c cs)
  have no: "\<not> (lookbehind prev \<and> is_space c \<and> lookahead (dropWhile is_space cs))"
  proof
    assume m: "lookbehind prev \<and> is_space c \<and> lookahead (dropWhile is_space cs)"
    with scan_inv_match [OF "2.prems"(1)] have cur: "cur \<noteq> []" "is_end (last cur)" by auto
    from cur(1) obtain b l where bl: "cur = b @ [l]" by (cases cur rule: rev_cases) auto
    with m cur(2) have "has_boundary (l # c # cs)" by simp
    then have "has_boundary (b @ l # c # cs)" by (rule has_boundary_append)
    with "2.prems"(2) show False by (simp add: bl)
  qed
  from "2.prems" have "\<not> has_boundary ((cur @ [c]) @ cs)" by simp
  from "2.IH"(2) [OF no scan_inv_snoc this] no show ?case by simp
qed

subsection \<open>Joining and single spacing\<close>

lemma join_sp_Cons: "L \<noteq> [] \<Longrightarrow> join_sp (x # L) = x @ CHR '' '' # join_sp L"
  by (cases L) simp_all

lemma join_sp_Cons_Cons: "join_sp ((c # w) # rest) = c # join_sp (w # rest)"
  by (cases rest) simp_all

lemma single_spaced_Cons:
  "single_spaced (c # X) =
     ((if is_space c then c = CHR '' '' \<and> (X = [] \<or> \<not> is_space (hd X)) else True)
      \<and> single_spaced X)"
  by (cases X) auto

lemma sub_ws_hd_nonspace:
  "s = [] \<or> \<not> is_space (hd s) \<Longrightarrow> sub_ws s = [] \<or> \<not> is_space (hd (sub_ws s))"
  by (cases s) auto

lemma dropWhile_hd_nonspace:
  "dropWhile is_space cs = [] \<or> \<not> is_space (hd (dropWhile is_space cs))"
  using hd_dropWhile [of is_space cs] by blast

lemma single_spaced_sub_ws: "single_spaced (sub_ws s)"
proof (induction s rule: sub_ws.induct)
  case 1
  show ?case by simp
next
  case (2 c cs)
  show ?case
  proof (cases "is_space c")
    case True
    from sub_ws_hd_nonspace [OF dropWhile_hd_nonspace [of cs]] "2.IH"(1) [OF True] True
    show ?thesis by (simp add: single_spaced_Cons)
  next
    case False
    with "2.IH"(2) show ?thesis by (simp add: single_spaced_Cons)
  qed
qed

lemma single_spaced_append:
  "single_spaced (xs @ ys) \<Longrightarrow> single_spaced xs \<and> single_spaced ys"
proof (induction xs)
  case Nil
  then show ?case by simp
next
  case (Cons x xs)
  then show ?case by (cases xs) (auto simp: single_spaced_Cons split: if_splits)
qed

lemma single_spaced_dropWhile: "single_spaced s \<Longrightarrow> single_spaced (dropWhile P s)"
  by (induction s) (auto simp: single_spaced_Cons)

lemma single_spaced_sub_id: "single_spaced s \<Longrightarrow> sub_ws s = s"
proof (induction s rule: single_spaced.induct)
  case 1
  show ?case by simp
next
  case (2 c)
  then show ?case by (auto split: if_splits)
next
  case (3 c d cs)
  then show ?case by (auto split: if_splits)
qed

lemma split_single_spaced:
  "single_spaced (cur @ cs) \<Longrightarrow>
     \<forall>s \<in> set (sentence_endings_split prev cur cs). single_spaced s"
proof (induction prev cur cs rule: sentence_endings_split.induct)
  case (1 prev cur)
  then show ?case by simp
next
  case (2 prev cur c cs)
  show ?case
  proof (cases "lookbehind prev \<and> is_space c \<and> lookahead (dropWhile is_space cs)")
    case True
    let ?L = "sentence_endings_split (Some (last (c # takeWhile is_space cs))) []
                (dropWhile is_space cs)"
    from single_spaced_append [OF "2.prems"] have a: "single_spaced cur" "single_spaced (c # cs)"
      by blast+
    from a(2) have "single_spaced cs" by (simp add: single_spaced_Cons)
    then have "single_spaced ([] @ dropWhile is_space cs)"
      by (simp add: single_spaced_dropWhile)
    from "2.IH"(1) [OF True this] have rest: "\<forall>s \<in> set ?L. single_spaced s" .
    from True have eq: "sentence_endings_split prev cur (c # cs) = cur # ?L"
      by simp
    show ?thesis unfolding eq using rest a(1) by simp
  next
    case False
    from "2.prems" have a: "single_spaced ((cur @ [c]) @ cs)" by simp
    have eq: "sentence_endings_split prev cur (c # cs)
                = sentence_endings_split (Some c) (cur @ [c]) cs"
      by (simp only: sentence_endings_split.simps False if_False)
    show ?thesis unfolding eq by (rule "2.IH"(2) [OF False a])
  qed
qed

lemma split_join:
  "single_spaced cs \<Longrightarrow> join_sp (sentence_endings_split prev cur cs) = cur @ cs"
proof (induction prev cur cs rule: sentence_endings_split.induct)
  case (1 prev cur)
  show ?case by simp
next
  case (2 prev cur c cs)
  from "2.prems" have ss: "single_spaced cs" by (simp add: single_spaced_Cons)
  show ?case
  proof (cases "lookbehind prev \<and> is_space c \<and> lookahead (dropWhile is_space cs)")
    case True
    let ?L = "sentence_endings_split (Some (last (c # takeWhile is_space cs))) []
                (dropWhile is_space cs)"
    from True have la: "lookahead (dropWhile is_space cs)" by blast
    from lookahead_Cons [OF la] have "dropWhile is_space cs \<noteq> []" by blast
    then have cs: "cs \<noteq> []" by (cases cs) simp_all
    from True "2.prems" cs have c: "c = CHR '' ''" and h: "\<not> is_space (hd cs)"
      by (simp_all add: single_spaced_Cons)
    from cs h have d: "dropWhile is_space cs = cs" by (cases cs) simp_all
    from ss have "single_spaced (dropWhile is_space cs)" by (rule single_spaced_dropWhile)
    from "2.IH"(1) [OF True this] have "join_sp ?L = [] @ dropWhile is_space cs" .
    then have j: "join_sp ?L = cs" by (simp only: d append_Nil)
    from True have eq: "sentence_endings_split prev cur (c # cs) = cur # ?L"
      by simp
    have "join_sp (sentence_endings_split prev cur (c # cs)) = join_sp (cur # ?L)"
      by (simp only: eq)
    also have "\<dots> = cur @ CHR '' '' # join_sp ?L"
      by (rule join_sp_Cons) (rule split_not_Nil)
    also have "\<dots> = cur @ c # cs"
      by (simp only: j) (simp only: c)
    finally show ?thesis .
  next
    case False
    have eq: "sentence_endings_split prev cur (c # cs)
                = sentence_endings_split (Some c) (cur @ [c]) cs"
      by (simp only: sentence_endings_split.simps False if_False)
    from "2.IH"(2) [OF False ss] show ?thesis unfolding eq by simp
  qed
qed

subsection \<open>The cleaned text\<close>

lemma sub_ws_hd: "s \<noteq> [] \<Longrightarrow> \<not> is_space (hd s) \<Longrightarrow> sub_ws s \<noteq> [] \<and> hd (sub_ws s) = hd s"
  by (cases s) auto

lemma sub_ws_last:
  "s \<noteq> [] \<Longrightarrow> \<not> is_space (last s) \<Longrightarrow> sub_ws s \<noteq> [] \<and> \<not> is_space (last (sub_ws s))"
proof (induction s rule: sub_ws.induct)
  case 1
  then show ?case by simp
next
  case (2 c cs)
  show ?case
  proof (cases "is_space c")
    case True
    with "2.prems" have cs: "cs \<noteq> []" and l: "\<not> is_space (last cs)"
      by (auto split: if_splits)
    from cs l have "\<exists>x \<in> set cs. \<not> is_space x" using last_in_set by blast
    then have ne: "dropWhile is_space cs \<noteq> []" by simp
    from last_dropWhile [OF ne] l have "\<not> is_space (last (dropWhile is_space cs))" by simp
    from "2.IH"(1) [OF True ne this] True show ?thesis by simp
  next
    case False
    show ?thesis
    proof (cases "cs = []")
      case True
      with False show ?thesis by simp
    next
      case ne: False
      with "2.prems" have "\<not> is_space (last cs)" by simp
      from "2.IH"(2) [OF False ne this] False show ?thesis by simp
    qed
  qed
qed

lemma cleaned_trimmed:
  assumes "cleaned text \<noteq> []"
  shows "\<not> is_space (hd (cleaned text))" and "\<not> is_space (last (cleaned text))"
proof -
  from assms have ne: "strip text \<noteq> []" by (auto simp: cleaned_def)
  from sub_ws_hd [OF ne strip_trimmed(1) [OF ne]] strip_trimmed(1) [OF ne]
  show "\<not> is_space (hd (cleaned text))" by (simp add: cleaned_def)
  from sub_ws_last [OF ne strip_trimmed(2) [OF ne]]
  show "\<not> is_space (last (cleaned text))" by (simp add: cleaned_def)
qed

lemma strip_fragments_id:
  "\<forall>s \<in> set L. strip s = s \<and> s \<noteq> [] \<Longrightarrow> map strip (filter (\<lambda>s. strip s \<noteq> []) L) = L"
  by (induction L) simp_all

lemma split_sentences_eq:
  "split_sentences text =
     (if cleaned text = [] then [] else sentence_endings_split None [] (cleaned text))"
proof (cases "cleaned text = []")
  case True
  then show ?thesis by (simp add: split_sentences_def strip_def)
next
  case False
  let ?L = "sentence_endings_split None [] (cleaned text)"
  from False cleaned_trimmed [OF False]
  have "[] @ cleaned text \<noteq> []" "\<not> is_space (hd ([] @ cleaned text))"
    "\<not> is_space (last ([] @ cleaned text))" by simp_all
  from split_trimmed [OF scan_inv_start this]
  have t: "\<forall>s \<in> set ?L. s \<noteq> [] \<and> \<not> is_space (hd s) \<and> \<not> is_space (last s)" .
  have "\<forall>s \<in> set ?L. strip s = s \<and> s \<noteq> []"
  proof
    fix s assume "s \<in> set ?L"
    with t have "s \<noteq> []" "\<not> is_space (hd s)" "\<not> is_space (last s)" by blast+
    then show "strip s = s \<and> s \<noteq> []" using strip_id by blast
  qed
  from strip_fragments_id [OF this] False show ?thesis
    by (simp add: split_sentences_def)
qed

lemma sentence_in_split:
  assumes "s \<in> set (split_sentences text)"
  shows "cleaned text \<noteq> []" and "s \<in> set (sentence_endings_split None [] (cleaned text))"
  using assms by (auto simp: split_sentences_eq split: if_splits)

subsection \<open>Boundaries and cleaning\<close>

lemma has_boundary_Cons:
  "has_boundary (p # cs) =
     ((is_end p \<and> cs \<noteq> [] \<and> is_space (hd cs) \<and> lookahead (dropWhile is_space cs))
      \<or> has_boundary cs)"
  by (cases cs) auto

lemma has_boundary_dropWhile: "has_boundary (dropWhile is_space s) = has_boundary s"
  by (induction s) (auto simp: has_boundary_Cons dest: is_end_not_space)

lemma has_boundary_spaces: "\<forall>w \<in> set ws. is_space w \<Longrightarrow> \<not> has_boundary ws"
  by (induction ws) (auto simp: has_boundary_Cons dest: is_end_not_space)

lemma lookahead_all_space:
  "\<forall>w \<in> set ws. is_space w \<Longrightarrow> \<not> lookahead (dropWhile is_space ws)"
proof -
  assume "\<forall>w \<in> set ws. is_space w"
  then have "dropWhile is_space ws = []" by simp
  then show ?thesis by (simp only: lookahead_def list.case not_False_eq_True)
qed

lemma lookahead_dropWhile_spaces:
  "\<forall>w \<in> set ws. is_space w \<Longrightarrow>
     lookahead (dropWhile is_space (s @ ws)) = lookahead (dropWhile is_space s)"
proof (induction s)
  case Nil
  from lookahead_all_space [OF Nil] show ?case by (simp add: lookahead_def)
next
  case (Cons c s)
  then show ?case by (simp add: lookahead_def)
qed

lemma has_boundary_append_spaces:
  "\<forall>w \<in> set ws. is_space w \<Longrightarrow> has_boundary (s @ ws) = has_boundary s"
proof (induction s)
  case Nil
  then show ?case by (simp add: has_boundary_spaces)
next
  case (Cons p s)
  show ?case
  proof (cases "s = []")
    case True
    from Cons.prems have "\<not> has_boundary ws" "\<not> lookahead (dropWhile is_space ws)"
      by (simp_all add: has_boundary_spaces lookahead_all_space)
    with True show ?thesis by (simp add: has_boundary_Cons)
  next
    case False
    with Cons.IH [OF Cons.prems] lookahead_dropWhile_spaces [OF Cons.prems, of s]
    show ?thesis by (simp add: has_boundary_Cons)
  qed
qed

lemma has_boundary_strip: "has_boundary (strip s) = has_boundary s"
proof -
  let ?y = "dropWhile is_space s"
  have "?y = strip s @ rev (takeWhile is_space (rev ?y))"
    unfolding strip_def by (metis rev_append rev_rev_ident takeWhile_dropWhile_id)
  moreover have "\<forall>w \<in> set (rev (takeWhile is_space (rev ?y))). is_space w"
    by (auto dest: set_takeWhileD)
  ultimately have "has_boundary ?y = has_boundary (strip s)"
    using has_boundary_append_spaces by metis
  then show ?thesis by (simp add: has_boundary_dropWhile)
qed

lemma sub_ws_nonspace_head:
  "s = [] \<or> \<not> is_space (hd s) \<Longrightarrow>
     dropWhile is_space (sub_ws s) = sub_ws s \<and> lookahead (sub_ws s) = lookahead s"
  by (cases s) (auto simp: lookahead_def)

lemma lookahead_dropWhile_sub_ws:
  "lookahead (dropWhile is_space (sub_ws s)) = lookahead (dropWhile is_space s)"
proof (cases s)
  case Nil
  then show ?thesis by simp
next
  case (Cons d r)
  show ?thesis
  proof (cases "is_space d")
    case True
    from sub_ws_nonspace_head [OF dropWhile_hd_nonspace [of r]] True
    show ?thesis by (simp add: Cons)
  next
    case False
    then show ?thesis by (simp add: Cons lookahead_def)
  qed
qed

lemma sub_ws_space_head: "(sub_ws s \<noteq> [] \<and> is_space (hd (sub_ws s))) = (s \<noteq> [] \<and> is_space (hd s))"
  by (cases s) auto

lemma has_boundary_sub_ws: "has_boundary (sub_ws s) = has_boundary s"
proof (induction s rule: sub_ws.induct)
  case 1
  show ?case by simp
next
  case (2 c cs)
  show ?case
  proof (cases "is_space c")
    case True
    then have ne: "\<not> is_end c" by (auto dest: is_end_not_space)
    have "\<not> is_end CHR '' ''" by (auto dest: is_end_not_space)
    with True "2.IH"(1) [OF True] ne show ?thesis
      by (simp add: has_boundary_Cons has_boundary_dropWhile)
  next
    case False
    with "2.IH"(2) [OF False] sub_ws_space_head [of cs] lookahead_dropWhile_sub_ws [of cs]
    show ?thesis by (simp add: has_boundary_Cons) blast
  qed
qed

lemma has_boundary_cleaned: "has_boundary (cleaned text) = has_boundary text"
  by (simp add: cleaned_def has_boundary_sub_ws has_boundary_strip)

lemma has_boundary_iff:
  "has_boundary s \<longleftrightarrow>
     (\<exists>pre p ws u post. s = pre @ p # ws @ u # post \<and> is_end p \<and> ws \<noteq> []
         \<and> (\<forall>w \<in> set ws. is_space w) \<and> is_upper u)"
  (is "?L s = ?R s")
proof
  show "?L s \<Longrightarrow> ?R s"
  proof (induction s rule: has_boundary.induct)
    case 1
    then show ?case by simp
  next
    case (2 p)
    then show ?case by simp
  next
    case (3 p w cs)
    show ?case
    proof (cases "is_end p \<and> is_space w \<and> lookahead (dropWhile is_space cs)")
      case True
      then have la: "lookahead (dropWhile is_space cs)" by blast
      from lookahead_Cons [OF la] obtain u post where
        d: "dropWhile is_space cs = u # post" and u: "is_upper u"
        by (cases "dropWhile is_space cs") auto
      have "cs = takeWhile is_space cs @ u # post"
        using takeWhile_dropWhile_id [of is_space cs] by (simp only: d)
      then have "p # w # cs = [] @ p # (w # takeWhile is_space cs) @ u # post" by simp
      moreover have "\<forall>x \<in> set (w # takeWhile is_space cs). is_space x"
        using True by (auto dest: set_takeWhileD)
      ultimately show ?thesis using True u by blast
    next
      case False
      with "3.prems" have "has_boundary (w # cs)" by auto
      from "3.IH" [OF this] obtain pre q ws u post where
        e: "w # cs = pre @ q # ws @ u # post" and
        r: "is_end q" "ws \<noteq> []" "\<forall>x \<in> set ws. is_space x" "is_upper u" by blast
      from e have "p # w # cs = (p # pre) @ q # ws @ u # post" by simp
      with r show ?thesis by blast
    qed
  qed
next
  assume "?R s"
  then obtain pre p ws u post where
    e: "s = pre @ p # ws @ u # post" and
    r: "is_end p" "ws \<noteq> []" "\<forall>x \<in> set ws. is_space x" "is_upper u" by blast
  from r(2) obtain w ws' where ws: "ws = w # ws'" by (cases ws) auto
  from r(3) ws have sp: "is_space w" "\<forall>x \<in> set ws'. is_space x" by simp_all
  from r(4) have "\<not> is_space u" by (rule is_upper_not_space)
  with sp(2) have "dropWhile is_space (ws' @ u # post) = u # post"
    by (simp add: dropWhile_append2)
  with r(4) have "lookahead (dropWhile is_space (ws' @ u # post))" by (simp add: lookahead_def)
  with r(1) sp(1) have "has_boundary (p # w # ws' @ u # post)" by simp
  then have "has_boundary (pre @ p # w # ws' @ u # post)" by (rule has_boundary_append)
  then show "has_boundary s" by (simp add: e ws)
qed


subsection \<open>The cleaned text as joined tokens\<close>

lemma tokens_dropWhile: "tokens (dropWhile is_space s) = tokens s"
  by (induction s) simp_all

lemma tokens_spaces: "\<forall>w \<in> set ws. is_space w \<Longrightarrow> tokens ws = []"
  by (induction ws) simp_all

lemma takeWhile_nonspace_spaces:
  "\<forall>w \<in> set ws. is_space w \<Longrightarrow>
     takeWhile (\<lambda>d. \<not> is_space d) (cs @ ws) = takeWhile (\<lambda>d. \<not> is_space d) cs"
proof (induction cs)
  case Nil
  then show ?case by (cases ws) simp_all
next
  case (Cons c cs)
  then show ?case by simp
qed

lemma dropWhile_nonspace_spaces:
  "\<forall>w \<in> set ws. is_space w \<Longrightarrow>
     dropWhile (\<lambda>d. \<not> is_space d) (cs @ ws) = dropWhile (\<lambda>d. \<not> is_space d) cs @ ws"
proof (induction cs)
  case Nil
  then show ?case by (cases ws) simp_all
next
  case (Cons c cs)
  then show ?case by simp
qed

lemma tokens_append_spaces: "\<forall>w \<in> set ws. is_space w \<Longrightarrow> tokens (s @ ws) = tokens s"
proof (induction s rule: tokens.induct)
  case 1
  then show ?case by (simp add: tokens_spaces)
next
  case (2 c cs)
  show ?case
  proof (cases "is_space c")
    case True
    with "2.IH"(1) [OF True "2.prems"] show ?thesis by simp
  next
    case False
    from "2.IH"(2) [OF False "2.prems"] False show ?thesis
      by (simp add: takeWhile_nonspace_spaces [OF "2.prems"]
            dropWhile_nonspace_spaces [OF "2.prems"])
  qed
qed

lemma tokens_strip: "tokens (strip s) = tokens s"
proof -
  let ?y = "dropWhile is_space s"
  have "?y = strip s @ rev (takeWhile is_space (rev ?y))"
    unfolding strip_def by (metis rev_append rev_rev_ident takeWhile_dropWhile_id)
  moreover have "\<forall>w \<in> set (rev (takeWhile is_space (rev ?y))). is_space w"
    by (auto dest: set_takeWhileD)
  ultimately have "tokens ?y = tokens (strip s)"
    using tokens_append_spaces by metis
  then show ?thesis by (simp add: tokens_dropWhile)
qed

lemma tokens_Nil_iff: "tokens s = [] \<longleftrightarrow> (\<forall>c \<in> set s. is_space c)"
  by (induction s rule: tokens.induct) auto

lemma sub_ws_tokens:
  "s \<noteq> [] \<Longrightarrow> \<not> is_space (last s) \<Longrightarrow>
     sub_ws s = (if is_space (hd s) then CHR '' '' # join_sp (tokens s) else join_sp (tokens s))"
proof (induction s rule: sub_ws.induct)
  case 1
  then show ?case by simp
next
  case (2 c cs)
  show ?case
  proof (cases "is_space c")
    case True
    let ?r = "dropWhile is_space cs"
    from True "2.prems" have cs: "cs \<noteq> []" and l: "\<not> is_space (last cs)"
      by (auto split: if_splits)
    from cs l have "\<exists>x \<in> set cs. \<not> is_space x" using last_in_set by blast
    then have ne: "?r \<noteq> []" by simp
    from last_dropWhile [OF ne] l have lr: "\<not> is_space (last ?r)" by simp
    from ne hd_dropWhile [of is_space cs] have hr: "\<not> is_space (hd ?r)" by blast
    from "2.IH"(1) [OF True ne lr] hr have "sub_ws ?r = join_sp (tokens ?r)" by simp
    with True show ?thesis by (simp add: tokens_dropWhile)
  next
    case False
    show ?thesis
    proof (cases "cs = []")
      case True
      with False show ?thesis by simp
    next
      case ne: False
      with "2.prems" have l: "\<not> is_space (last cs)" by simp
      note ih = "2.IH"(2) [OF False ne l]
      show ?thesis
      proof (cases "is_space (hd cs)")
        case True
        with ne have tw: "takeWhile (\<lambda>d. \<not> is_space d) cs = []"
          and dw: "dropWhile (\<lambda>d. \<not> is_space d) cs = cs" by (cases cs; simp)+
        from ne l have "\<exists>x \<in> set cs. \<not> is_space x" using last_in_set by blast
        then have "tokens cs \<noteq> []" by (simp add: tokens_Nil_iff)
        then have "join_sp ([c] # tokens cs) = [c] @ CHR '' '' # join_sp (tokens cs)"
          by (rule join_sp_Cons)
        with False True ih tw dw show ?thesis by simp
      next
        case nsp: False
        from ne obtain d ds where cs: "cs = d # ds" by (cases cs) auto
        with nsp have d: "\<not> is_space d" by simp
        from d have t: "tokens cs = (d # takeWhile (\<lambda>d. \<not> is_space d) ds)
                          # tokens (dropWhile (\<lambda>d. \<not> is_space d) ds)"
          by (simp add: cs)
        from False d have "tokens (c # cs) = (c # d # takeWhile (\<lambda>d. \<not> is_space d) ds)
                          # tokens (dropWhile (\<lambda>d. \<not> is_space d) ds)"
          by (simp add: cs)
        then have "join_sp (tokens (c # cs)) = c # join_sp (tokens cs)"
          by (simp only: t join_sp_Cons_Cons)
        with False nsp ih show ?thesis by simp
      qed
    qed
  qed
qed

lemma cleaned_tokens: "cleaned text = join_sp (tokens text)"
proof (cases "strip text = []")
  case True
  then have "tokens (strip text) = []" by simp
  then have "tokens text = []" by (simp only: tokens_strip)
  with True show ?thesis by (simp add: cleaned_def)
next
  case False
  from sub_ws_tokens [OF False strip_trimmed(2) [OF False]] strip_trimmed(1) [OF False]
  show ?thesis by (simp add: cleaned_def tokens_strip)
qed

lemma sub_ws_filter:
  "filter (\<lambda>c. \<not> is_space c) (sub_ws s) = filter (\<lambda>c. \<not> is_space c) s"
  by (induction s rule: sub_ws.induct) (simp_all add: filter_dropWhile_space)

lemma cleaned_Nil_iff: "cleaned text = [] \<longleftrightarrow> (\<forall>c \<in> set text. is_space c)"
proof -
  have "cleaned text = [] \<longleftrightarrow> tokens text = []"
  proof
    assume "cleaned text = []"
    show "tokens text = []"
    proof (rule ccontr)
      assume n: "tokens text \<noteq> []"
      then have "\<exists>c \<in> set text. \<not> is_space c" by (simp add: tokens_Nil_iff)
      then have "filter (\<lambda>c. \<not> is_space c) text \<noteq> []" by (simp add: filter_empty_conv)
      moreover have "filter (\<lambda>c. \<not> is_space c) (concat (split_sentences text))
                       = filter (\<lambda>c. \<not> is_space c) text"
        by (simp add: split_sentences_def filter_stripped_fragments filter_split cleaned_def
              filter_strip sub_ws_filter)
      ultimately show False using \<open>cleaned text = []\<close> by (simp add: split_sentences_eq)
    qed
  next
    assume "tokens text = []"
    then show "cleaned text = []" by (simp add: cleaned_tokens)
  qed
  then show ?thesis by (simp add: tokens_Nil_iff)
qed


lemma sentence_props:
  assumes "s \<in> set (split_sentences text)"
  shows "s \<noteq> [] \<and> \<not> is_space (hd s) \<and> \<not> is_space (last s) \<and> \<not> has_boundary s"
proof -
  let ?n = "cleaned text"
  let ?L = "sentence_endings_split None [] ?n"
  from sentence_in_split [OF assms] have n: "?n \<noteq> []" and s: "s \<in> set ?L" .
  from n cleaned_trimmed [OF n]
  have "[] @ ?n \<noteq> []" "\<not> is_space (hd ([] @ ?n))" "\<not> is_space (last ([] @ ?n))"
    by simp_all
  from split_trimmed [OF scan_inv_start this] s
  have t: "s \<noteq> [] \<and> \<not> is_space (hd s) \<and> \<not> is_space (last s)" by blast
  have "\<not> boundary_within [] ?n" by simp
  from split_no_boundary_inside [OF scan_inv_start this] s have "\<not> has_boundary s" by blast
  with t show ?thesis by blast
qed

lemma join_split_sentences: "join_sp (split_sentences text) = cleaned text"
proof (cases "cleaned text = []")
  case True
  then show ?thesis by (simp add: split_sentences_eq)
next
  case False
  have "single_spaced (cleaned text)" by (simp add: cleaned_def single_spaced_sub_ws)
  from split_join [OF this, of None "[]"] False show ?thesis
    by (simp add: split_sentences_eq)
qed

lemma boundaries_ok_split_sentences: "boundaries_ok (split_sentences text)"
  using split_boundaries_ok [OF scan_inv_start, of "cleaned text"]
  by (simp add: split_sentences_eq)

lemma split_sentences_no_boundary:
  assumes "list_ex (\<lambda>c. \<not> is_space c) text" and "\<not> has_boundary text"
  shows "split_sentences text = [cleaned text]"
proof -
  from assms(1) have n: "cleaned text \<noteq> []" by (simp add: cleaned_Nil_iff list_ex_iff)
  from assms(2) have "\<not> has_boundary ([] @ cleaned text)" by (simp add: has_boundary_cleaned)
  from split_without_boundary [OF scan_inv_start this] n show ?thesis
    by (simp add: split_sentences_eq)
qed

lemma split_sentences_boundary:
  assumes "has_boundary text"
  shows "2 \<le> length (split_sentences text)"
proof (rule ccontr)
  assume "\<not> 2 \<le> length (split_sentences text)"
  then consider "split_sentences text = []" | x where "split_sentences text = [x]"
    by (cases "split_sentences text" rule: list.exhaust;
        cases "tl (split_sentences text)" rule: list.exhaust) auto
  then show False
  proof cases
    case 1
    with join_split_sentences [of "text"] have "cleaned text = []" by simp
    with assms has_boundary_cleaned [of "text"] show False by simp
  next
    case 2
    with join_split_sentences [of "text"] have "cleaned text = x" by simp
    moreover from 2 sentence_props [of x "text"] have "\<not> has_boundary x" by simp
    ultimately show False using assms has_boundary_cleaned [of "text"] by simp
  qed
qed

text \<open>
  The lookahead is the class \<open>[A-Z]\<close>: a capital letter outside it, such as U+00C9,
  opens no sentence.
\<close>

lemma latin1_capital_opens_no_sentence:
  "split_sentences (''Fin. '' @ [CHR 0xC9] @ ''cole'') = [''Fin. '' @ [CHR 0xC9] @ ''cole'']"
  by code_simp

subsection \<open>The unique categories of \<open>main\<close>\<close>

lemma unique_loop_eq: "unique_loop acc xs = dedup_loop (set acc) acc xs"
  by (induction xs arbitrary: acc) (simp_all add: dedup_loop.simps(2))

lemma unique_categories_first:
  "unique_categories_of results = first_occurrences (concat (map snd results))"
  by (simp add: unique_categories_of_def unique_loop_eq dedup_loop_first_occurrences)

subsection \<open>Runs\<close>

lemma sub_ws_run_returns: "sub_ws_run s = Some (sub_ws s)"
proof (induction s rule: sub_ws.induct)
  case 1
  show ?case by (subst sub_ws_run.simps) simp
next
  case (2 c cs)
  show ?case
  proof (cases "is_space c")
    case True
    with "2.IH"(1) [OF True] show ?thesis by (subst sub_ws_run.simps) simp
  next
    case False
    with "2.IH"(2) [OF False] show ?thesis by (subst sub_ws_run.simps) simp
  qed
qed

lemma sentence_endings_split_run_returns:
  "sentence_endings_split_run prev cur s = Some (sentence_endings_split prev cur s)"
proof (induction prev cur s rule: sentence_endings_split.induct)
  case (1 prev cur)
  show ?case by (subst sentence_endings_split_run.simps) simp
next
  case (2 prev cur c cs)
  show ?case
  proof (cases "lookbehind prev \<and> is_space c \<and> lookahead (dropWhile is_space cs)")
    case True
    have eq: "sentence_endings_split prev cur (c # cs) =
                cur # sentence_endings_split (Some (last (c # takeWhile is_space cs))) []
                        (dropWhile is_space cs)"
      using True by simp
    show ?thesis unfolding eq
      by (subst sentence_endings_split_run.simps) (simp only: "2.IH"(1) [OF True] True
            list.case if_True Option.bind.simps simp_thms)
  next
    case False
    have eq: "sentence_endings_split prev cur (c # cs)
                = sentence_endings_split (Some c) (cur @ [c]) cs"
      by (simp only: sentence_endings_split.simps False if_False)
    show ?thesis unfolding eq
      by (subst sentence_endings_split_run.simps) (simp only: "2.IH"(2) [OF False] False
            list.case if_False)
  qed
qed

lemma split_sentences_run_returns: "split_sentences_run text = Some (split_sentences text)"
  by (simp add: split_sentences_run_def split_sentences_def cleaned_def sub_ws_run_returns
        sentence_endings_split_run_returns)

lemma analyze_policy_run_returns:
  "analyze_policy_run text cats = Some (analyze_policy text cats)"
  by (simp add: analyze_policy_run_def analyze_policy_def split_sentences_run_returns)

lemma dedup_loop_run_eq:
  assumes "\<And>x s. set (set_add x s) = insert x (set s)"
  shows "dedup_loop_run set_add seen deduped recs = dedup_loop (set seen) deduped recs"
proof (induction recs arbitrary: seen deduped)
  case Nil
  show ?case by simp
next
  case (Cons r recs)
  show ?case
  proof (cases "r \<in> set seen")
    case True
    with Cons.IH [of seen deduped] show ?thesis by (simp add: dedup_loop.simps(2))
  next
    case False
    with Cons.IH [of "set_add r seen" "deduped @ [r]"] assms [of r seen] show ?thesis
      by (simp add: dedup_loop.simps(2))
  qed
qed

lemma get_recommendations_run_eq:
  assumes "\<And>x s. set (set_add x s) = insert x (set s)"
  shows "get_recommendations_run set_add cats = get_recommendations cats"
  using dedup_loop_run_eq [OF assms, of "[]"]
  by (simp add: get_recommendations_run_def get_recommendations_def)

lemma pipeline_run_eq:
  assumes "\<And>x s. set (set_add x s) = insert x (set s)"
  shows "pipeline_run set_add text table = Some (pipeline text table)"
  by (simp add: pipeline_run_def pipeline_def Let_def analyze_policy_run_returns
        get_recommendations_run_eq [OF assms])

section \<open>Claims\<close>

text \<open>
  C1. Every record of \<open>analyze_policy\<close> pairs a sentence of the segmenter with the
  categories matched on its lowercased form. For every sentence and table, a category name
  is among the matched categories exactly when the table holds it with a keyword that is
  a substring of the lowercased sentence, and the matched names follow the order of the
  table.
\<close>

theorem matched_iff_keyword_in_table_order:
  "(\<forall>(sentence, matched) \<in> set (analyze_policy text cats).
       sentence \<in> set (split_sentences text) \<and> matched = match_categories cats (lower sentence))
   \<and> (cat \<in> set (match_categories cats (lower sentence)) \<longleftrightarrow>
        (\<exists>keywords kw pre post. (cat, keywords) \<in> set cats \<and> kw \<in> set keywords
            \<and> lower sentence = pre @ kw @ post))
   \<and> subseq (match_categories cats (lower sentence)) (map fst cats)"
proof (intro conjI)
  show "\<forall>(sentence, matched) \<in> set (analyze_policy text cats).
       sentence \<in> set (split_sentences text) \<and> matched = match_categories cats (lower sentence)"
    by (auto simp: analyze_policy_def analyze_loop_eq)
  show "cat \<in> set (match_categories cats (lower sentence)) \<longleftrightarrow>
        (\<exists>keywords kw pre post. (cat, keywords) \<in> set cats \<and> kw \<in> set keywords
            \<and> lower sentence = pre @ kw @ post)"
    unfolding match_categories_set str_in_iff by blast
  show "subseq (match_categories cats (lower sentence)) (map fst cats)"
    by (rule match_categories_subseq)
qed

theorem matched_iff_keyword_in_table_order_witness:
  "analyze_policy ''We share data.'' categories = [(''We share data.'', [''Data Sharing''])]
   \<and> match_categories categories (lower ''We share data.'') = [''Data Sharing'']
   \<and> (\<exists>keywords kw pre post. (''Data Sharing'', keywords) \<in> set categories
          \<and> kw \<in> set keywords \<and> lower ''We share data.'' = pre @ kw @ post)
   \<and> subseq [''Data Sharing''] (map fst categories)"
proof -
  have a: "analyze_policy ''We share data.'' categories = [(''We share data.'', [''Data Sharing''])]"
    by code_simp
  have m: "match_categories categories (lower ''We share data.'') = [''Data Sharing'']"
    by code_simp
  from matched_iff_keyword_in_table_order
         [of "''We share data.''" categories "''Data Sharing''" "''We share data.''"] a m
  show ?thesis by simp
qed

text \<open>
  C2. The cleaned text is the text with every run of whitespace collapsed to one space and
  the ends trimmed: the tokens of the text (its maximal runs of characters that are not
  whitespace) joined by single spaces. The sentences of \<open>split_sentences\<close> joined by
  single spaces give the cleaned text back, so the cuts remove one space each and keep
  everything else in order. Every cut is at a qualifying boundary (the sentence before it
  ends with \<open>.\<close>, \<open>!\<close> or \<open>?\<close>, the sentence after it starts with a capital letter
  A to Z), and no qualifying boundary is left inside a sentence. Every sentence is
  non-empty and trimmed. A text with a qualifying boundary gives at least two sentences; a
  text with a character that is not whitespace and no qualifying boundary gives exactly
  one sentence, its cleaned form. A qualifying boundary is a \<open>.\<close>, \<open>!\<close> or \<open>?\<close> followed
  by one or more whitespace characters and then a capital letter A to Z.
\<close>

theorem split_sentences_spec:
  "cleaned text = join_sp (tokens text)
   \<and> join_sp (split_sentences text) = cleaned text
   \<and> boundaries_ok (split_sentences text)
   \<and> (\<forall>s \<in> set (split_sentences text).
         s \<noteq> [] \<and> \<not> is_space (hd s) \<and> \<not> is_space (last s) \<and> \<not> has_boundary s)
   \<and> (has_boundary text \<longrightarrow> 2 \<le> length (split_sentences text))
   \<and> (list_ex (\<lambda>c. \<not> is_space c) text \<and> \<not> has_boundary text \<longrightarrow>
         split_sentences text = [cleaned text])
   \<and> (has_boundary text \<longleftrightarrow>
         (\<exists>pre p ws u post. text = pre @ p # ws @ u # post \<and> is_end p \<and> ws \<noteq> []
             \<and> (\<forall>w \<in> set ws. is_space w) \<and> is_upper u))"
proof (intro conjI)
  show "cleaned text = join_sp (tokens text)" by (rule cleaned_tokens)
  show "join_sp (split_sentences text) = cleaned text" by (rule join_split_sentences)
  show "boundaries_ok (split_sentences text)" by (rule boundaries_ok_split_sentences)
  show "\<forall>s \<in> set (split_sentences text).
         s \<noteq> [] \<and> \<not> is_space (hd s) \<and> \<not> is_space (last s) \<and> \<not> has_boundary s"
    using sentence_props by blast
  show "has_boundary text \<longrightarrow> 2 \<le> length (split_sentences text)"
    using split_sentences_boundary by blast
  show "list_ex (\<lambda>c. \<not> is_space c) text \<and> \<not> has_boundary text \<longrightarrow>
         split_sentences text = [cleaned text]"
    using split_sentences_no_boundary by blast
  show "has_boundary text \<longleftrightarrow>
         (\<exists>pre p ws u post. text = pre @ p # ws @ u # post \<and> is_end p \<and> ws \<noteq> []
             \<and> (\<forall>w \<in> set ws. is_space w) \<and> is_upper u)"
    by (rule has_boundary_iff)
qed

theorem split_sentences_spec_witness:
  "has_boundary ''Hi.  We go! Do? yes. No''
   \<and> split_sentences ''Hi.  We go! Do? yes. No'' = [''Hi.'', ''We go!'', ''Do? yes.'', ''No'']
   \<and> join_sp [''Hi.'', ''We go!'', ''Do? yes.'', ''No''] = cleaned ''Hi.  We go! Do? yes. No''
   \<and> list_ex (\<lambda>c. \<not> is_space c) ''terms  of use'' \<and> \<not> has_boundary ''terms  of use''
   \<and> split_sentences ''terms  of use'' = [''terms of use'']"
proof -
  have b: "has_boundary ''Hi.  We go! Do? yes. No''"
    by code_simp
  have s: "split_sentences ''Hi.  We go! Do? yes. No'' = [''Hi.'', ''We go!'', ''Do? yes.'', ''No'']"
    by code_simp
  have e: "list_ex (\<lambda>c. \<not> is_space c) ''terms  of use''"
    by code_simp
  have n: "\<not> has_boundary ''terms  of use''"
    by code_simp
  have c: "cleaned ''terms  of use'' = ''terms of use''"
    by code_simp
  note t1 = split_sentences_spec [of "''Hi.  We go! Do? yes. No''"]
  from t1 [THEN conjunct2, THEN conjunct1] s
  have j: "join_sp [''Hi.'', ''We go!'', ''Do? yes.'', ''No''] = cleaned ''Hi.  We go! Do? yes. No''"
    by simp
  note t2 = split_sentences_spec [of "''terms  of use''"]
  from t2 [THEN conjunct2, THEN conjunct2, THEN conjunct2, THEN conjunct2, THEN conjunct2,
           THEN conjunct1] e n
  have "split_sentences ''terms  of use'' = [cleaned ''terms  of use'']" by blast
  then have "split_sentences ''terms  of use'' = [''terms of use'']" by (simp only: c)
  with b s e n j show ?thesis by blast
qed

text \<open>
  C3. \<open>get_recommendations\<close> returns the first occurrences of the concatenation, in
  input order, of the lists the recommendation table holds for the categories (nothing for
  a category the table lacks). The output never repeats a string, an absent category
  changes nothing, and no categories give no recommendations. This holds for every
  sequence of categories, with or without repetitions.
\<close>

theorem get_recommendations_spec:
  "get_recommendations cats =
     first_occurrences
       (concat (map (\<lambda>c. case map_of category_recommendations c of None \<Rightarrow> [] | Some recs \<Rightarrow> recs)
                  cats))
   \<and> distinct (get_recommendations cats)
   \<and> get_recommendations [] = []
   \<and> (map_of category_recommendations c = None \<longrightarrow>
        get_recommendations (xs @ c # ys) = get_recommendations (xs @ ys))"
proof (intro conjI)
  show "get_recommendations cats =
     first_occurrences
       (concat (map (\<lambda>c. case map_of category_recommendations c of None \<Rightarrow> [] | Some recs \<Rightarrow> recs)
                  cats))"
    by (simp add: get_recommendations_eq dedup_loop_first_occurrences dict_get_def)
  show "distinct (get_recommendations cats)"
    by (simp add: get_recommendations_eq dedup_loop_distinct)
  show "get_recommendations [] = []"
    by (simp add: get_recommendations_def)
  show "map_of category_recommendations c = None \<longrightarrow>
        get_recommendations (xs @ c # ys) = get_recommendations (xs @ ys)"
    by (simp add: get_recommendations_eq dict_get_def)
qed

theorem get_recommendations_spec_witness:
  "map_of category_recommendations ''Weather'' = None
   \<and> get_recommendations ([''Security''] @ ''Weather'' # [''Location''])
       = get_recommendations [''Security'', ''Location'']
   \<and> length (get_recommendations [''Security'', ''Location'']) = 4"
proof -
  have n: "map_of category_recommendations ''Weather'' = None"
    by code_simp
  have l: "length (get_recommendations [''Security'', ''Location'']) = 4"
    by code_simp
  from get_recommendations_spec [of _ "''Weather''" "[''Security'']" "[''Location'']"] n l
  show ?thesis by simp
qed

text \<open>
  C4. Every run of \<open>split_sentences\<close> and of \<open>analyze_policy\<close> returns a value, for
  every text and every table, and the value is the one of the total functions above. The
  source applies to a \<open>str\<close> only operations that are defined on every \<open>str\<close> and raise
  nothing (\<open>strip\<close>, \<open>re.sub\<close>, \<open>split\<close>, \<open>lower\<close>, \<open>in\<close>), so a run can only fail to
  return by not ending, and it always ends. On the empty text \<open>split_sentences\<close> returns
  no sentence and \<open>analyze_policy\<close> no record, for any table.
\<close>

theorem core_functions_return:
  "split_sentences_run text = Some (split_sentences text)
   \<and> analyze_policy_run text cats = Some (analyze_policy text cats)
   \<and> split_sentences_run [] = Some []
   \<and> analyze_policy_run [] cats = Some []
   \<and> split_sentences [] = []
   \<and> analyze_policy [] cats = []"
proof -
  have e: "split_sentences [] = []"
    by (simp add: split_sentences_def cleaned_def strip_def)
  then have a: "analyze_policy [] cats = []"
    by (simp add: analyze_policy_def)
  from e a split_sentences_run_returns [of "[]"] analyze_policy_run_returns [of "[]" cats]
  show ?thesis
    by (simp add: split_sentences_run_returns analyze_policy_run_returns)
qed

theorem core_functions_return_witness:
  "split_sentences_run ''Hi.  We go!'' = Some [''Hi.'', ''We go!'']
   \<and> analyze_policy_run ''We share data.'' categories
       = Some [(''We share data.'', [''Data Sharing''])]"
proof -
  have s: "split_sentences ''Hi.  We go!'' = [''Hi.'', ''We go!'']"
    by code_simp
  have a: "analyze_policy ''We share data.'' categories = [(''We share data.'', [''Data Sharing''])]"
    by code_simp
  from core_functions_return [of "''Hi.  We go!''" categories, THEN conjunct1]
       core_functions_return [of "''We share data.''" categories, THEN conjunct2, THEN conjunct1]
       s a
  show ?thesis by simp
qed

text \<open>
  C5. No sentence of \<open>split_sentences\<close> is empty or made of whitespace only, and the
  characters of the sentences that are not whitespace, read in order, are those of the
  cleaned (whitespace-normalized) text.
\<close>

theorem sentences_nonblank_and_preserve_text:
  "(\<forall>s \<in> set (split_sentences text). s \<noteq> [] \<and> list_ex (\<lambda>c. \<not> is_space c) s)
   \<and> filter (\<lambda>c. \<not> is_space c) (concat (split_sentences text))
       = filter (\<lambda>c. \<not> is_space c) (cleaned text)"
proof (intro conjI ballI)
  fix s assume "s \<in> set (split_sentences text)"
  then obtain f where s: "s = strip f" and ne: "strip f \<noteq> []"
    by (auto simp: split_sentences_def)
  from ne show "s \<noteq> []" by (simp add: s)
  from strip_trimmed(1) [OF ne] ne show "list_ex (\<lambda>c. \<not> is_space c) s"
    unfolding s list_ex_iff by (metis hd_in_set)
next
  show "filter (\<lambda>c. \<not> is_space c) (concat (split_sentences text))
       = filter (\<lambda>c. \<not> is_space c) (cleaned text)"
    by (simp add: split_sentences_def filter_stripped_fragments filter_split)
qed

theorem sentences_nonblank_and_preserve_text_witness:
  "split_sentences ''Hi.  We go! Do? yes. No'' = [''Hi.'', ''We go!'', ''Do? yes.'', ''No'']
   \<and> filter (\<lambda>c. \<not> is_space c) (concat [''Hi.'', ''We go!'', ''Do? yes.'', ''No''])
       = filter (\<lambda>c. \<not> is_space c) (cleaned ''Hi.  We go! Do? yes. No'')"
proof -
  have s: "split_sentences ''Hi.  We go! Do? yes. No'' = [''Hi.'', ''We go!'', ''Do? yes.'', ''No'']"
    by code_simp
  from sentences_nonblank_and_preserve_text [of "''Hi.  We go! Do? yes. No''"] s
  show ?thesis by simp
qed

text \<open>
  C6. Every record of \<open>analyze_policy\<close> has at least one category, and the sentences of
  the records are exactly the sentences of the segmenter with at least one matched
  category, in order: a sentence without a match has no record.
\<close>

theorem records_only_for_matching_sentences:
  "(\<forall>(sentence, matched) \<in> set (analyze_policy text cats). matched \<noteq> [])
   \<and> map fst (analyze_policy text cats) =
       filter (\<lambda>s. match_categories cats (lower s) \<noteq> []) (split_sentences text)
   \<and> (s \<in> set (split_sentences text) \<and> match_categories cats (lower s) = [] \<longrightarrow>
        s \<notin> fst ` set (analyze_policy text cats))"
  by (auto simp: analyze_policy_def analyze_loop_eq comp_def)

theorem records_only_for_matching_sentences_witness:
  "split_sentences ''Hello there. We share data.'' = [''Hello there.'', ''We share data.'']
   \<and> match_categories categories (lower ''Hello there.'') = []
   \<and> analyze_policy ''Hello there. We share data.'' categories
       = [(''We share data.'', [''Data Sharing''])]
   \<and> ''Hello there.'' \<notin> fst ` set (analyze_policy ''Hello there. We share data.'' categories)"
proof -
  have s: "split_sentences ''Hello there. We share data.'' = [''Hello there.'', ''We share data.'']"
    by code_simp
  have m: "match_categories categories (lower ''Hello there.'') = []"
    by code_simp
  have a: "analyze_policy ''Hello there. We share data.'' categories
       = [(''We share data.'', [''Data Sharing''])]"
    by code_simp
  from records_only_for_matching_sentences
         [of "''Hello there. We share data.''" categories "''Hello there.''"] s m a
  show ?thesis by simp
qed

text \<open>
  C7. Two runs of the pipeline on the same text and the same table return the same Result
  Set and the same recommendations, whatever the order in which the set \<open>seen\<close> keeps
  its elements in each of the two runs. The table is a \<open>dict\<close> and is read in insertion
  order, every accumulator is created inside the call that uses it, and \<open>seen\<close>, the only
  object of a run whose state the arguments do not fix, is only asked for membership. Both
  runs return the value of \<open>pipeline\<close>.
\<close>

theorem pipeline_run_deterministic:
  assumes "\<And>x s. set (set_add1 x s) = insert x (set s)"
      and "\<And>x s. set (set_add2 x s) = insert x (set s)"
  shows "pipeline_run set_add1 text table = pipeline_run set_add2 text table
         \<and> analyze_policy_run text table = Some (fst (pipeline text table))
         \<and> get_recommendations_run set_add1 cats = get_recommendations_run set_add2 cats
         \<and> pipeline_run set_add1 text table = Some (pipeline text table)"
  by (simp add: pipeline_run_eq [OF assms(1)] pipeline_run_eq [OF assms(2)]
        get_recommendations_run_eq [OF assms(1)] get_recommendations_run_eq [OF assms(2)]
        analyze_policy_run_returns pipeline_def Let_def)


theorem pipeline_run_deterministic_witness:
  "(\<lambda>x s. x # s) ''b'' [''a''] \<noteq> (\<lambda>x s. s @ [x]) ''b'' [''a'']
   \<and> pipeline_run (\<lambda>x s. x # s) ''We share data.'' categories
       = pipeline_run (\<lambda>x s. s @ [x]) ''We share data.'' categories
   \<and> map_option fst (pipeline_run (\<lambda>x s. x # s) ''We share data.'' categories)
       = Some [(''We share data.'', [''Data Sharing''])]
   \<and> map_option (length \<circ> snd) (pipeline_run (\<lambda>x s. x # s) ''We share data.'' categories)
       = Some 2"
proof -
  have p: "fst (pipeline ''We share data.'' categories) = [(''We share data.'', [''Data Sharing''])]"
    by code_simp
  have l: "length (snd (pipeline ''We share data.'' categories)) = 2"
    by code_simp
  have h1: "\<And>x s. set ((\<lambda>x s. x # s) x s) = insert x (set s)" by simp
  have h2: "\<And>x s. set ((\<lambda>x s. s @ [x]) x s) = insert x (set s)" by simp
  note t = pipeline_run_deterministic [of "\<lambda>x s. x # s" "\<lambda>x s. s @ [x]", OF h1 h2,
             of "''We share data.''" categories]
  have r: "pipeline_run (\<lambda>x s. x # s) ''We share data.'' categories
             = Some (pipeline ''We share data.'' categories)"
    by (rule t [THEN conjunct2, THEN conjunct2, THEN conjunct2])
  show ?thesis
  proof (intro conjI)
    show "(\<lambda>x s. x # s) ''b'' [''a''] \<noteq> (\<lambda>x s. s @ [x]) ''b'' [''a'']" by simp
    show "pipeline_run (\<lambda>x s. x # s) ''We share data.'' categories
            = pipeline_run (\<lambda>x s. s @ [x]) ''We share data.'' categories"
      by (rule t [THEN conjunct1])
    show "map_option fst (pipeline_run (\<lambda>x s. x # s) ''We share data.'' categories)
            = Some [(''We share data.'', [''Data Sharing''])]"
      unfolding r by (simp add: p)
    show "map_option (length \<circ> snd) (pipeline_run (\<lambda>x s. x # s) ''We share data.'' categories)
            = Some 2"
      unfolding r by (simp add: l)
  qed
qed

text \<open>
  C8, as stated: on "Your GPS location is used to show nearby ads." the matched categories
  include both Location and Advertising. They do not: no keyword of Advertising occurs in
  the sentence ("ads" is not a keyword).
\<close>

theorem gps_example_counterexample:
  "\<not> (''Location'' \<in> set (concat (map snd
          (analyze_policy ''Your GPS location is used to show nearby ads.'' categories)))
      \<and> ''Advertising'' \<in> set (concat (map snd
          (analyze_policy ''Your GPS location is used to show nearby ads.'' categories))))"
  by code_simp

text \<open>
  C8, amended: on this input \<open>analyze_policy\<close> returns one record, whose only category
  is Location.
\<close>

theorem gps_example_location_only:
  "analyze_policy ''Your GPS location is used to show nearby ads.'' categories
     = [(''Your GPS location is used to show nearby ads.'', [''Location''])]"
  by code_simp

text \<open>
  C9. Every sentence that \<open>split_sentences\<close> returns is split into itself alone.
\<close>

theorem split_sentences_idempotent:
  "\<forall>s \<in> set (split_sentences text). split_sentences s = [s]"
proof
  fix s assume a: "s \<in> set (split_sentences text)"
  let ?n = "cleaned text"
  let ?L = "sentence_endings_split None [] ?n"
  from sentence_in_split [OF a] have n: "?n \<noteq> []" and s: "s \<in> set ?L" .
  from n cleaned_trimmed [OF n]
  have "[] @ ?n \<noteq> []" "\<not> is_space (hd ([] @ ?n))" "\<not> is_space (last ([] @ ?n))"
    by simp_all
  from split_trimmed [OF scan_inv_start this] s
  have t: "s \<noteq> []" "\<not> is_space (hd s)" "\<not> is_space (last s)" by blast+
  have "single_spaced ([] @ ?n)" by (simp add: cleaned_def single_spaced_sub_ws)
  from split_single_spaced [OF this] s have ss: "single_spaced s" by blast
  have "\<not> boundary_within [] ?n" by simp
  from split_no_boundary_inside [OF scan_inv_start this] s have nb: "\<not> has_boundary s" by blast
  from t have st: "strip s = s" by (rule strip_id)
  with ss have c: "cleaned s = s" by (simp add: cleaned_def single_spaced_sub_id)
  from nb have "sentence_endings_split None [] s = [[] @ s]"
    by (intro split_without_boundary) simp_all
  with c t(1) show "split_sentences s = [s]" by (simp add: split_sentences_eq)
qed

theorem split_sentences_idempotent_witness:
  "split_sentences ''Hi.  We go!'' = [''Hi.'', ''We go!'']
   \<and> split_sentences ''Hi.'' = [''Hi.''] \<and> split_sentences ''We go!'' = [''We go!'']"
proof -
  have s: "split_sentences ''Hi.  We go!'' = [''Hi.'', ''We go!'']"
    by code_simp
  from split_sentences_idempotent [of "''Hi.  We go!''"] s
  show ?thesis by simp
qed

text \<open>
  C10. The output of \<open>get_recommendations\<close> on any sequence of categories is its output
  on the sequence with every repetition of a category removed.
\<close>

theorem get_recommendations_ignores_repeats:
  "get_recommendations cats = get_recommendations (first_occurrences cats)"
  using dedup_concat_dedup [of "{}" _ "{}" cats]
  by (simp add: get_recommendations_eq dedup_loop_first_occurrences)

theorem get_recommendations_ignores_repeats_witness:
  "first_occurrences [''Security'', ''Location'', ''Security''] = [''Security'', ''Location'']
   \<and> get_recommendations [''Security'', ''Location'', ''Security'']
       = get_recommendations [''Security'', ''Location'']"
proof -
  have f: "first_occurrences [''Security'', ''Location'', ''Security''] = [''Security'', ''Location'']"
    by code_simp
  from get_recommendations_ignores_repeats [of "[''Security'', ''Location'', ''Security'']"] f
  show ?thesis by simp
qed

end
